theory Spec2Isabelle
  imports Main "HOL-Library.Sublist"
begin

section \<open>Data model\<close>

text \<open>
  The dictionary returned by \<open>scrape_page\<close> (keys \<open>url\<close>, \<open>names\<close>, \<open>orgs\<close>,
  \<open>emails\<close>, \<open>phones\<close>). The source turns the two sets of matches into lists before it
  returns them, so all four collections are lists here.
\<close>

record page_record =
  url :: string
  names :: "string list"
  orgs :: "string list"
  emails :: "string list"
  phones :: "string list"

text \<open>
  One row of the result table built by \<open>crawl_and_scrape\<close>: the dictionary with the keys
  \<open>Person Name\<close>, \<open>Designation\<close>, \<open>Company\<close>, \<open>Email(s)\<close>, \<open>Phone(s)\<close> and
  \<open>Source URL\<close>. Python's \<open>None\<close> is \<open>None\<close>.
\<close>

record contact_record =
  person_name :: "string option"
  designation :: "string option"
  company :: "string option"
  emails_field :: "string option"
  phones_field :: "string option"
  source_url :: string

section \<open>Deduplicator\<close>

text \<open>The key \<open>(item['Email(s)'], item['Phone(s)'])\<close> of \<open>deduplicate\<close>.\<close>

definition signature :: "contact_record \<Rightarrow> string option \<times> string option" where
  "signature item = (emails_field item, phones_field item)"

text \<open>
  The loop of \<open>deduplicate\<close>, with its two local variables \<open>seen\<close> (a set of keys) and
  \<open>unique\<close> (the list built by \<open>append\<close>) as accumulators.
\<close>

fun deduplicate_loop ::
  "contact_record list \<Rightarrow> (string option \<times> string option) set \<Rightarrow> contact_record list
    \<Rightarrow> contact_record list" where
  "deduplicate_loop [] seen unique = unique"
| "deduplicate_loop (item # rest) seen unique =
     (let key = signature item in
      if key \<notin> seen then deduplicate_loop rest (insert key seen) (unique @ [item])
      else deduplicate_loop rest seen unique)"

definition deduplicate :: "contact_record list \<Rightarrow> contact_record list" where
  "deduplicate results = deduplicate_loop results {} []"

text \<open>
  Position \<open>i\<close> of the input holds the first record of its signature: the signature is
  not in \<open>seen\<close> and no earlier position has it. Used to state what the loop keeps.
\<close>

definition first_of_signature :: "(string option \<times> string option) set \<Rightarrow> contact_record list \<Rightarrow> nat \<Rightarrow> bool" where
  "first_of_signature seen xs i \<longleftrightarrow>
     signature (xs ! i) \<notin> seen \<and> (\<forall>j<i. signature (xs ! j) \<noteq> signature (xs ! i))"

section \<open>Python strings, sets and regular expressions\<close>

text \<open>
  A Python \<open>str\<close> is a \<open>string\<close>: a list of characters, read as code points below 256.
  A Python \<open>set\<close> is a HOL set. \<open>list(s)\<close> for a set \<open>s\<close> is \<open>list_of s\<close> for a function
  \<open>list_of\<close> that is a parameter of the model, since Python leaves the order open;
  \<open>lists_set list_of s\<close> says that \<open>list_of\<close> lists the set \<open>s\<close>, each element once.
\<close>

definition lists_set :: "('a set \<Rightarrow> 'a list) \<Rightarrow> 'a set \<Rightarrow> bool" where
  "lists_set list_of s \<longleftrightarrow> set (list_of s) = s \<and> distinct (list_of s)"

text \<open>
  The characters for which \<open>str.isspace\<close> holds, which are also those matched by \<open>\s\<close> in a
  pattern on \<open>str\<close>, and the decimal digits matched by \<open>\d\<close> (among code points below 256).
\<close>

definition py_space :: "char list" where
  "py_space = [CHR 0x09, CHR 0x0A, CHR 0x0B, CHR 0x0C, CHR 0x0D, CHR 0x1C, CHR 0x1D, CHR 0x1E,
     CHR 0x1F, CHR 0x20, CHR 0x85, CHR 0xA0]"

definition py_digits :: "char list" where
  "py_digits = ''0123456789''"

text \<open>\<open>s.strip()\<close>, \<open>sep.join(xs)\<close> and \<open>s.startswith((p1, ..., pn))\<close>.\<close>

definition strip :: "string \<Rightarrow> string" where
  "strip s = rev (dropWhile (\<lambda>c. c \<in> set py_space) (rev (dropWhile (\<lambda>c. c \<in> set py_space) s)))"

fun join :: "string \<Rightarrow> string list \<Rightarrow> string" where
  "join sep [] = []"
| "join sep [x] = x"
| "join sep (x # y # xs) = x @ sep @ join sep (y # xs)"

definition startswith :: "string \<Rightarrow> string list \<Rightarrow> bool" where
  "startswith s ps = list_ex (\<lambda>p. prefix p s) ps"

text \<open>
  The fragment of Python's pattern language that the two patterns of the source use: a
  character set \<open>[...]\<close> (or a single literal character), concatenation, alternation \<open>a|b\<close>,
  the greedy \<open>r?\<close>, the greedy \<open>[...]+\<close> on a character set, and \<open>r{n}\<close> (as \<open>times n r\<close>).
\<close>

datatype regex =
    Eps
  | Class "char list"
  | Seq regex regex
  | Alt regex regex
  | Opt regex
  | Plus "char list"

fun times :: "nat \<Rightarrow> regex \<Rightarrow> regex" where
  "times 0 r = Eps"
| "times (Suc n) r = Seq r (times n r)"

text \<open>
  Backtracking matcher: \<open>rmatch r s\<close> lists what is left of \<open>s\<close> after each way of matching
  \<open>r\<close> at the start of \<open>s\<close>, in the order in which Python's matcher tries them (the first
  alternative first, the greedy choice first). The match Python reports is the first.
\<close>

fun plus_class :: "char list \<Rightarrow> string \<Rightarrow> string list" where
  "plus_class cs [] = []"
| "plus_class cs (c # t) = (if c \<in> set cs then plus_class cs t @ [t] else [])"

fun rmatch :: "regex \<Rightarrow> string \<Rightarrow> string list" where
  "rmatch Eps s = [s]"
| "rmatch (Class cs) s = (case s of [] \<Rightarrow> [] | c # t \<Rightarrow> if c \<in> set cs then [t] else [])"
| "rmatch (Seq a b) s = concat (map (rmatch b) (rmatch a s))"
| "rmatch (Alt a b) s = rmatch a s @ rmatch b s"
| "rmatch (Opt a) s = rmatch a s @ [s]"
| "rmatch (Plus cs) s = plus_class cs s"

text \<open>
  \<open>re.findall(r, s)\<close> for a pattern without capturing groups: scan from the left; where
  the pattern matches, report the matched text and go on after it; elsewhere move on by
  one character. (Neither pattern of the source matches the empty string; for an empty
  match the scan reports it and moves on by one character.)
\<close>

function findall :: "regex \<Rightarrow> string \<Rightarrow> string list" where
  "findall r s =
     (case rmatch r s of
        [] \<Rightarrow> (case s of [] \<Rightarrow> [] | c # t \<Rightarrow> findall r t)
      | rest # alternatives \<Rightarrow>
          if length rest < length s
          then take (length s - length rest) s # findall r rest
          else [] # (case s of [] \<Rightarrow> [] | c # t \<Rightarrow> findall r t))"
  by pat_completeness auto
termination
  by (relation "measure (\<lambda>(r, s). length s)") auto

declare findall.simps [simp del]

text \<open>
  \<open>EMAIL_REGEX = r"[a-zA-Z0-9_.+-]+@[a-zA-Z0-9-]+\.[a-zA-Z0-9-.]+"\<close> and
  \<open>PHONE_REGEX = r"(?:(?:\+|00)?91[\s\-]?)?[6-9]\d{9}"\<close>.
\<close>

definition alnum :: "char list" where
  "alnum = ''abcdefghijklmnopqrstuvwxyzABCDEFGHIJKLMNOPQRSTUVWXYZ0123456789''"

definition EMAIL_REGEX :: regex where
  "EMAIL_REGEX =
     Seq (Plus (alnum @ ''_.+-''))
       (Seq (Class ''@'')
         (Seq (Plus (alnum @ ''-''))
           (Seq (Class ''.'')
             (Plus (alnum @ ''-.'')))))"

definition phone_prefix :: regex where
  "phone_prefix =
     Seq (Opt (Alt (Class ''+'') (Seq (Class ''0'') (Class ''0''))))
       (Seq (Class ''9'') (Seq (Class ''1'') (Opt (Class (py_space @ ''-'')))))"

definition phone_number :: regex where
  "phone_number = Seq (Class ''6789'') (times 9 (Class py_digits))"

definition PHONE_REGEX :: regex where
  "PHONE_REGEX = Seq (Opt phone_prefix) phone_number"

text \<open>The least number of characters that a match of a pattern takes.\<close>

fun min_len :: "regex \<Rightarrow> nat" where
  "min_len Eps = 0"
| "min_len (Class cs) = 1"
| "min_len (Seq a b) = min_len a + min_len b"
| "min_len (Alt a b) = min (min_len a) (min_len b)"
| "min_len (Opt a) = 0"
| "min_len (Plus cs) = 1"

section \<open>External collaborators\<close>

text \<open>
  What the program reaches outside itself, as parameters. \<open>'w\<close> is the state of the outside
  world (the network); a request takes it and returns the next one.
  \<^item> \<open>page_hrefs w u\<close>: \<open>requests.get(u)\<close>, \<open>BeautifulSoup\<close> and
    \<open>find_all("a", href=True)\<close>: the \<open>href\<close> values of the page's links in document order,
    or \<open>None\<close> when an exception is raised;
  \<^item> \<open>page_text w u\<close>: \<open>requests.get(u)\<close>, \<open>BeautifulSoup\<close> and \<open>get_text\<close>: the visible
    text of the page, or \<open>None\<close> when an exception is raised;
  \<^item> \<open>nlp text\<close>: the entities \<open>nlp(text).ents\<close> of spaCy as pairs \<open>(ent.text, ent.label_)\<close>,
    or \<open>None\<close> when spaCy raises;
  \<^item> \<open>urljoin\<close> and \<open>netloc\<close>: \<open>urllib.parse.urljoin\<close> and \<open>urlparse(u).netloc\<close>, \<open>None\<close>
    when they raise \<open>ValueError\<close>;
  \<^item> \<open>list_of\<close>: the order in which \<open>list(s)\<close> lists a set.
\<close>

record 'w env =
  page_hrefs :: "'w \<Rightarrow> string \<Rightarrow> string list option \<times> 'w"
  page_text :: "'w \<Rightarrow> string \<Rightarrow> string option \<times> 'w"
  nlp :: "string \<Rightarrow> (string \<times> string) list option"
  urljoin :: "string \<Rightarrow> string \<Rightarrow> string option"
  netloc :: "string \<Rightarrow> string option"
  list_of :: "string set \<Rightarrow> string list"

section \<open>Link Discoverer\<close>

text \<open>
  The loop of \<open>get_links\<close> over the links of the page, with the set \<open>links\<close> as
  accumulator. An exception of \<open>urljoin\<close> leaves the loop with the links found so far, as
  the \<open>except\<close> clause does; the \<open>break\<close> leaves it once \<open>len(links) >= max_pages\<close>.
  \<open>domain in href\<close> is \<open>sublist domain href\<close>: \<open>domain\<close> occurs in \<open>href\<close> as a block.
\<close>

fun get_links_loop ::
  "(string \<Rightarrow> string option) \<Rightarrow> string \<Rightarrow> int \<Rightarrow> string list \<Rightarrow> string set \<Rightarrow> string set" where
  "get_links_loop resolve domain max_pages [] links = links"
| "get_links_loop resolve domain max_pages (a_href # rest) links =
     (case resolve a_href of
        None \<Rightarrow> links
      | Some href \<Rightarrow>
          if sublist domain href then
            (let links' = insert href links in
             if int (card links') \<ge> max_pages then links'
             else get_links_loop resolve domain max_pages rest links')
          else get_links_loop resolve domain max_pages rest links)"

definition get_links :: "'w env \<Rightarrow> 'w \<Rightarrow> string \<Rightarrow> int \<Rightarrow> string list \<times> 'w" where
  "get_links env w base_url max_pages =
     (case page_hrefs env w base_url of
        (None, w') \<Rightarrow> (list_of env {}, w')
      | (Some hrefs, w') \<Rightarrow>
          (case netloc env base_url of
             None \<Rightarrow> (list_of env {}, w')
           | Some domain \<Rightarrow>
               (list_of env (get_links_loop (urljoin env base_url) domain max_pages hrefs {}), w')))"

text \<open>
  The resolved links of a page that contain \<open>domain\<close>: what the loop collects when it is
  not cut short.
\<close>

definition qualifying :: "(string \<Rightarrow> string option) \<Rightarrow> string \<Rightarrow> string list \<Rightarrow> string set" where
  "qualifying resolve domain hrefs =
     {l. \<exists>h \<in> set hrefs. resolve h = Some l \<and> sublist domain l}"

section \<open>Contact Extractor\<close>

text \<open>\<open>extract_entities\<close>, given \<open>doc.ents\<close>.\<close>

definition extract_entities :: "(string \<times> string) list \<Rightarrow> string list \<times> string list" where
  "extract_entities ents =
     (map (\<lambda>e. strip (fst e)) (filter (\<lambda>e. snd e = ''PERSON'') ents),
      map (\<lambda>e. strip (fst e)) (filter (\<lambda>e. snd e = ''ORG'') ents))"

text \<open>\<open>scrape_page\<close>: \<open>None\<close> is the \<open>None\<close> returned by the \<open>except\<close> clause.\<close>

definition scrape_page :: "'w env \<Rightarrow> 'w \<Rightarrow> string \<Rightarrow> page_record option \<times> 'w" where
  "scrape_page env w page_url =
     (case page_text env w page_url of
        (None, w') \<Rightarrow> (None, w')
      | (Some text, w') \<Rightarrow>
          (let emails0 = list_of env (set (findall EMAIL_REGEX text));
               emails1 = filter (\<lambda>email. \<not> startswith email [''noreply'', ''no-reply'', ''donotreply''])
                           emails0;
               phones1 = list_of env (set (findall PHONE_REGEX text))
           in case nlp env text of
                None \<Rightarrow> (None, w')
              | Some ents \<Rightarrow>
                  (let (names1, orgs1) = extract_entities ents
                   in (Some \<lparr>url = page_url, names = names1, orgs = orgs1, emails = emails1,
                               phones = phones1\<rparr>, w'))))"

section \<open>Crawl Orchestrator\<close>

text \<open>
  The state that \<open>crawl_and_scrape\<close> reads and writes: the global set \<open>visited_links\<close>, the
  content of the file \<open>visited_links.json\<close>, the outside world, the seconds spent in
  \<open>time.sleep\<close>, and the local list \<open>results\<close>. The messages of the user interface are left
  out.
\<close>

record 'w crawl_state =
  visited_links :: "string set"
  visited_file :: "string set"
  world :: 'w
  slept :: nat
  results :: "contact_record list"

text \<open>The dictionary appended for index \<open>i\<close> of the loop over the names of a page.\<close>

definition contact_at :: "page_record \<Rightarrow> nat \<Rightarrow> contact_record" where
  "contact_at data i =
     (let name = (if i < length (names data) then Some (names data ! i) else None);
          company1 = (if orgs data \<noteq> [] then Some (orgs data ! 0) else None)
      in \<lparr>person_name = name, designation = None, company = company1,
          emails_field = (if emails data \<noteq> [] then Some (join '', '' (emails data)) else None),
          phones_field = (if phones data \<noteq> [] then Some (join '', '' (phones data)) else None),
          source_url = url data\<rparr>)"

definition expand_page :: "page_record \<Rightarrow> contact_record list" where
  "expand_page data = map (contact_at data) [0..<max (length (names data)) 1]"

text \<open>
  The body of the loop over the pages of a site. The extractor \<open>scrape\<close> is a parameter:
  the program runs it with \<open>scrape_page env\<close>.
\<close>

definition process_page ::
  "('w \<Rightarrow> string \<Rightarrow> page_record option \<times> 'w) \<Rightarrow> 'w crawl_state \<Rightarrow> string \<Rightarrow> 'w crawl_state" where
  "process_page scrape st page =
     (if page \<in> visited_links st then st
      else
        (case scrape (world st) page of
           (None, w') \<Rightarrow> st\<lparr>world := w', slept := slept st + 1\<rparr>
         | (Some data, w') \<Rightarrow>
             st\<lparr>visited_links := insert page (visited_links st), world := w',
                slept := slept st + 1, results := results st @ expand_page data\<rparr>))"

fun crawl_pages ::
  "('w \<Rightarrow> string \<Rightarrow> page_record option \<times> 'w) \<Rightarrow> 'w crawl_state \<Rightarrow> string list \<Rightarrow> 'w crawl_state" where
  "crawl_pages scrape st [] = st"
| "crawl_pages scrape st (page # pages) = crawl_pages scrape (process_page scrape st page) pages"

text \<open>The body of the loop over the seed URLs; \<open>discover\<close> is run with \<open>get_links env\<close>.\<close>

definition crawl_site ::
  "('w \<Rightarrow> string \<Rightarrow> int \<Rightarrow> string list \<times> 'w) \<Rightarrow> ('w \<Rightarrow> string \<Rightarrow> page_record option \<times> 'w) \<Rightarrow> int
    \<Rightarrow> 'w crawl_state \<Rightarrow> string \<Rightarrow> 'w crawl_state" where
  "crawl_site discover scrape max_pages st base_url =
     (case discover (world st) base_url max_pages of
        (pages, w') \<Rightarrow> crawl_pages scrape (st\<lparr>world := w'\<rparr>) (base_url # pages))"

fun crawl_sites ::
  "('w \<Rightarrow> string \<Rightarrow> int \<Rightarrow> string list \<times> 'w) \<Rightarrow> ('w \<Rightarrow> string \<Rightarrow> page_record option \<times> 'w) \<Rightarrow> int
    \<Rightarrow> 'w crawl_state \<Rightarrow> string list \<Rightarrow> 'w crawl_state" where
  "crawl_sites discover scrape max_pages st [] = st"
| "crawl_sites discover scrape max_pages st (base_url # url_batch) =
     crawl_sites discover scrape max_pages (crawl_site discover scrape max_pages st base_url)
       url_batch"

text \<open>
  \<open>crawl_and_scrape\<close>: the returned list is the field \<open>results\<close> of the final state; the
  file is written once, after the loops.
\<close>

definition crawl_and_scrape ::
  "('w \<Rightarrow> string \<Rightarrow> int \<Rightarrow> string list \<times> 'w) \<Rightarrow> ('w \<Rightarrow> string \<Rightarrow> page_record option \<times> 'w)
    \<Rightarrow> string list \<Rightarrow> int \<Rightarrow> 'w crawl_state \<Rightarrow> 'w crawl_state" where
  "crawl_and_scrape discover scrape url_batch max_pages st =
     (let st' = crawl_sites discover scrape max_pages (st\<lparr>results := []\<rparr>) url_batch
      in st'\<lparr>visited_file := visited_links st'\<rparr>)"

text \<open>The program: the orchestrator run with the Link Discoverer and the Contact Extractor.\<close>

definition crawl_and_scrape_env ::
  "'w env \<Rightarrow> string list \<Rightarrow> int \<Rightarrow> 'w crawl_state \<Rightarrow> 'w crawl_state" where
  "crawl_and_scrape_env env = crawl_and_scrape (get_links env) (scrape_page env)"

section \<open>Batch Selector\<close>

text \<open>
  The selection in \<open>main\<close>: \<open>remaining_urls = list(all_urls - visited_links)\<close>; with no
  remaining URL \<open>main\<close> warns and returns (\<open>None\<close>), otherwise the batch is
  \<open>remaining_urls[:num_websites]\<close>. \<open>num_websites\<close> comes from a number input bounded by 2
  and 20, so it is a natural number.
\<close>

definition select_batch ::
  "(string set \<Rightarrow> string list) \<Rightarrow> string set \<Rightarrow> string set \<Rightarrow> nat \<Rightarrow> string list option" where
  "select_batch list_of1 all_urls visited num_websites =
     (let remaining_urls = list_of1 (all_urls - visited)
      in if remaining_urls = [] then None else Some (take num_websites remaining_urls))"

section \<open>Recording the invocations of the extractor\<close>

text \<open>
  To speak of the invocations of the extractor during a run, the orchestrator is run with an
  extractor that notes each invocation and its result in a list kept beside the world
  (\<open>recording\<close>), and with a link discoverer that leaves that list alone (\<open>unrecorded\<close>).
  The recorded run does what the plain run does (\<open>forget_crawl_and_scrape\<close> below).
\<close>

type_synonym call = "string \<times> page_record option"

definition recording ::
  "('w \<Rightarrow> string \<Rightarrow> page_record option \<times> 'w) \<Rightarrow> 'w \<times> call list \<Rightarrow> string
    \<Rightarrow> page_record option \<times> ('w \<times> call list)" where
  "recording scrape wc page =
     (case scrape (fst wc) page of (data, w') \<Rightarrow> (data, (w', snd wc @ [(page, data)])))"

definition unrecorded ::
  "('w \<Rightarrow> string \<Rightarrow> int \<Rightarrow> string list \<times> 'w) \<Rightarrow> 'w \<times> call list \<Rightarrow> string \<Rightarrow> int
    \<Rightarrow> string list \<times> ('w \<times> call list)" where
  "unrecorded discover wc base_url max_pages =
     (case discover (fst wc) base_url max_pages of (pages, w') \<Rightarrow> (pages, (w', snd wc)))"

definition start_recording :: "'w crawl_state \<Rightarrow> ('w \<times> call list) crawl_state" where
  "start_recording st =
     \<lparr>visited_links = visited_links st, visited_file = visited_file st, world = (world st, []),
      slept = slept st, results = results st\<rparr>"

definition forget_calls :: "('w \<times> call list) crawl_state \<Rightarrow> 'w crawl_state" where
  "forget_calls st =
     \<lparr>visited_links = visited_links st, visited_file = visited_file st, world = fst (world st),
      slept = slept st, results = results st\<rparr>"

text \<open>The invocations of the extractor during \<open>crawl_and_scrape\<close>, in order, with their results.\<close>

definition extractor_calls ::
  "('w \<Rightarrow> string \<Rightarrow> int \<Rightarrow> string list \<times> 'w) \<Rightarrow> ('w \<Rightarrow> string \<Rightarrow> page_record option \<times> 'w)
    \<Rightarrow> string list \<Rightarrow> int \<Rightarrow> 'w crawl_state \<Rightarrow> call list" where
  "extractor_calls discover scrape url_batch max_pages st =
     snd (world (crawl_and_scrape (unrecorded discover) (recording scrape) url_batch max_pages
       (start_recording st)))"

text \<open>
  The visited set after a list of invocations that started from \<open>V\<close>: the page of every
  successful invocation has been added. \<open>unvisited_when_called V calls\<close>: each invocation was
  for a page outside the visited set of that moment.
\<close>

fun visited_after :: "string set \<Rightarrow> call list \<Rightarrow> string set" where
  "visited_after V [] = V"
| "visited_after V ((page, data) # calls) =
     visited_after (if data \<noteq> None then insert page V else V) calls"

fun unvisited_when_called :: "string set \<Rightarrow> call list \<Rightarrow> bool" where
  "unvisited_when_called V [] = True"
| "unvisited_when_called V ((page, data) # calls) =
     (page \<notin> V \<and> unvisited_when_called (if data \<noteq> None then insert page V else V) calls)"

text \<open>The invariant of a recorded run that started with the visited set \<open>V\<close>.\<close>

definition calls_agree :: "string set \<Rightarrow> ('w \<times> call list) crawl_state \<Rightarrow> bool" where
  "calls_agree V st \<longleftrightarrow>
     visited_links st = visited_after V (snd (world st)) \<and>
     unvisited_when_called V (snd (world st))"

section \<open>Example inputs\<close>

text \<open>Three records that share an email field; the first two also share the (absent) phone field.\<close>

definition rec_a :: contact_record where
  "rec_a = \<lparr>person_name = Some ''Asha Rao'', designation = None, company = Some ''Firm'',
     emails_field = Some ''contact@firm.in'', phones_field = None,
     source_url = ''https://firm.in''\<rparr>"

definition rec_b :: contact_record where
  "rec_b = \<lparr>person_name = Some ''Ravi Iyer'', designation = None, company = None,
     emails_field = Some ''contact@firm.in'', phones_field = None,
     source_url = ''https://firm.in/about''\<rparr>"

definition rec_c :: contact_record where
  "rec_c = \<lparr>person_name = None, designation = None, company = None,
     emails_field = Some ''contact@firm.in'', phones_field = Some ''9876543210'',
     source_url = ''https://firm.in/team''\<rparr>"

text \<open>
  A pool of seven URLs of which five are visited, and a way to list a set: in the order of
  a given list.
\<close>

definition pool_ex :: "string list" where
  "pool_ex = [''https://a.in'', ''https://b.in'', ''https://c.in'', ''https://d.in'',
     ''https://e.in'', ''https://f.in'', ''https://g.in'']"

definition visited_ex :: "string set" where
  "visited_ex = {''https://a.in'', ''https://c.in'', ''https://d.in'', ''https://e.in'',
     ''https://g.in''}"

definition list_in :: "string list \<Rightarrow> string set \<Rightarrow> string list" where
  "list_in order s = filter (\<lambda>x. x \<in> s) (remdups order)"

text \<open>
  A site with three pages: the home page names one person, the team page names two people
  and two organisations, and a third page cannot be fetched. The world counts the requests
  of the extractor. One URL has been visited before.
\<close>

definition page_jane :: page_record where
  "page_jane = \<lparr>url = ''https://example.in'', names = [''Jane Doe''], orgs = [],
     emails = [''jane@example.in''], phones = [''9876543210'']\<rparr>"

definition page_team :: page_record where
  "page_team = \<lparr>url = ''https://example.in/team'', names = [''Asha Rao'', ''Ravi Iyer''],
     orgs = [''Example Ltd'', ''Other Org''], emails = [''asha@example.in'', ''ravi@example.in''],
     phones = []\<rparr>"

definition scrape_ex :: "nat \<Rightarrow> string \<Rightarrow> page_record option \<times> nat" where
  "scrape_ex n page =
     (if page = ''https://example.in'' then Some page_jane
      else if page = ''https://example.in/team'' then Some page_team
      else None, Suc n)"

definition discover_ex :: "nat \<Rightarrow> string \<Rightarrow> int \<Rightarrow> string list \<times> nat" where
  "discover_ex n base_url max_pages =
     (if base_url = ''https://example.in''
      then [''https://example.in/team'', ''https://example.in'', ''https://example.in/down'']
      else [], n)"

definition st_ex :: "nat crawl_state" where
  "st_ex = \<lparr>visited_links = {''https://old.in''}, visited_file = {''https://old.in''}, world = 0,
     slept = 0, results = []\<rparr>"

text \<open>
  An outside world for the examples: one page with links, one page with text, and an entity
  recogniser with a fixed answer. \<open>url_netloc\<close> follows \<open>urlsplit\<close> on URLs of the plain form
  \<open>scheme://netloc/path?query#fragment\<close>, and \<open>urljoin\<close> is taken on absolute URLs, which it
  returns as they are.
\<close>

definition url_netloc :: "string \<Rightarrow> string" where
  "url_netloc u =
     (let scheme = takeWhile (\<lambda>c. c \<noteq> CHR '':'') u;
          rest = (if scheme \<noteq> [] \<and> length scheme < length u \<and> hd scheme \<in> set (take 52 alnum)
                    \<and> set scheme \<subseteq> set (alnum @ ''+-.'')
                  then drop (length scheme + 1) u else u)
      in if take 2 rest = ''//'' then takeWhile (\<lambda>c. c \<notin> set ''/?#'') (drop 2 rest) else [])"

definition text_ex :: string where
  "text_ex = ''noreply@example.in, NoReply@example.in, info@example.in; +91 9876543210, 9876543210''"

definition order_ex :: "string list" where
  "order_ex = [''NoReply@example.in'', ''info@example.in'', ''noreply@example.in'',
     ''9876543210'', ''+91 9876543210'', ''https://example.in/team'',
     ''https://evil.com/?q=example.in'', ''https://shop.example.in/'', ''https://other.org/'']"

definition env_ex :: "nat env" where
  "env_ex =
     \<lparr>page_hrefs = (\<lambda>w u. (if u = ''https://example.in''
          then Some [''https://example.in/team'', ''https://evil.com/?q=example.in'',
                 ''https://other.org/'', ''https://shop.example.in/'', ''https://example.in/team'']
          else None, Suc w)),
      page_text = (\<lambda>w u. (if u = ''https://example.in/contact'' then Some text_ex else None, Suc w)),
      nlp = (\<lambda>t. Some [(''  Jane Doe '', ''PERSON''), (''Example Ltd'', ''ORG''), (''Pune'', ''GPE'')]),
      urljoin = (\<lambda>b h. Some h),
      netloc = (\<lambda>u. Some (url_netloc u)),
      list_of = list_in order_ex\<rparr>"

text \<open>The links of the page \<open>https://example.in\<close> of the example world.\<close>

definition hrefs_ex :: "string list" where
  "hrefs_ex = [''https://example.in/team'', ''https://evil.com/?q=example.in'',
     ''https://other.org/'', ''https://shop.example.in/'', ''https://example.in/team'']"

section \<open>Properties of the Deduplicator\<close>

lemma filter_upt_Suc:
  "filter P [0..<Suc n] = (if P 0 then [0] else []) @ map Suc (filter (\<lambda>i. P (Suc i)) [0..<n])"
proof -
  have "[0..<Suc n] = 0 # map Suc [0..<n]"
    by (simp add: upt_conv_Cons map_Suc_upt del: upt_Suc)
  then show ?thesis
    by (simp add: filter_map comp_def del: upt_Suc)
qed

lemma first_of_signature_Suc_new:
  "signature x \<notin> seen \<Longrightarrow>
   first_of_signature seen (x # r) (Suc i) = first_of_signature (insert (signature x) seen) r i"
  by (auto simp: first_of_signature_def All_less_Suc2)

lemma first_of_signature_Suc_old:
  "signature x \<in> seen \<Longrightarrow>
   first_of_signature seen (x # r) (Suc i) = first_of_signature seen r i"
  by (auto simp: first_of_signature_def All_less_Suc2)

lemma deduplicate_loop_char:
  "deduplicate_loop xs seen unique =
     unique @ map (\<lambda>i. xs ! i) (filter (first_of_signature seen xs) [0..<length xs])"
proof (induction xs arbitrary: seen unique)
  case Nil
  then show ?case by simp
next
  case (Cons x r)
  show ?case
  proof (cases "signature x \<in> seen")
    case True
    then have "\<not> first_of_signature seen (x # r) 0"
      by (simp add: first_of_signature_def)
    with True show ?thesis
      by (simp add: Cons.IH filter_upt_Suc first_of_signature_Suc_old comp_def del: upt_Suc)
  next
    case False
    then have "first_of_signature seen (x # r) 0"
      by (simp add: first_of_signature_def)
    with False show ?thesis
      by (simp add: Cons.IH filter_upt_Suc first_of_signature_Suc_new comp_def del: upt_Suc)
  qed
qed

lemma deduplicate_loop_distinct:
  "distinct (map signature unique) \<Longrightarrow> signature ` set unique \<subseteq> seen \<Longrightarrow>
   distinct (map signature (deduplicate_loop xs seen unique))"
proof (induction xs arbitrary: seen unique)
  case Nil
  then show ?case by simp
next
  case (Cons x r)
  show ?case
  proof (cases "signature x \<in> seen")
    case True
    with Cons show ?thesis by simp
  next
    case False
    have "distinct (map signature (unique @ [x]))"
      using Cons.prems False by auto
    moreover have "signature ` set (unique @ [x]) \<subseteq> insert (signature x) seen"
      using Cons.prems by auto
    ultimately have "distinct (map signature (deduplicate_loop r (insert (signature x) seen) (unique @ [x])))"
      by (rule Cons.IH)
    with False show ?thesis by simp
  qed
qed

lemma deduplicate_loop_subseq:
  "\<exists>ys. deduplicate_loop xs seen unique = unique @ ys \<and> subseq ys xs"
proof (induction xs arbitrary: seen unique)
  case Nil
  then show ?case by simp
next
  case (Cons x r)
  show ?case
  proof (cases "signature x \<in> seen")
    case True
    from Cons.IH [of seen unique] obtain ys where
      "deduplicate_loop r seen unique = unique @ ys" "subseq ys r" by blast
    with True show ?thesis by auto
  next
    case False
    from Cons.IH [of "insert (signature x) seen" "unique @ [x]"] obtain ys where
      "deduplicate_loop r (insert (signature x) seen) (unique @ [x]) = (unique @ [x]) @ ys"
      "subseq ys r" by blast
    with False have "deduplicate_loop (x # r) seen unique = unique @ (x # ys) \<and> subseq (x # ys) (x # r)"
      by simp
    then show ?thesis by blast
  qed
qed

lemma deduplicate_loop_fixed:
  "distinct (map signature xs) \<Longrightarrow> signature ` set xs \<inter> seen = {} \<Longrightarrow>
   deduplicate_loop xs seen unique = unique @ xs"
proof (induction xs arbitrary: seen unique)
  case Nil
  then show ?case by simp
next
  case (Cons x r)
  from Cons.prems have new: "signature x \<notin> seen" by auto
  from Cons.prems have "distinct (map signature r)"
    and "signature ` set r \<inter> insert (signature x) seen = {}" by auto
  then have "deduplicate_loop r (insert (signature x) seen) (unique @ [x]) = (unique @ [x]) @ r"
    by (rule Cons.IH)
  with new show ?case by simp
qed

text \<open>
  C7: \<open>deduplicate\<close> keeps exactly the records found at the positions that hold the first
  occurrence of their (emails field, phones field) signature, in input order; every later
  record with a signature already seen is dropped, whatever its person name or company. Hence
  the signatures of the output are pairwise distinct.
\<close>

theorem deduplicate_keeps_first:
  "deduplicate xs =
     map (\<lambda>i. xs ! i)
       (filter (\<lambda>i. \<forall>j<i. signature (xs ! j) \<noteq> signature (xs ! i)) [0..<length xs])
   \<and> distinct (map signature (deduplicate xs))"
proof
  have "first_of_signature {} xs = (\<lambda>i. \<forall>j<i. signature (xs ! j) \<noteq> signature (xs ! i))"
    by (simp add: first_of_signature_def fun_eq_iff)
  then show "deduplicate xs =
     map (\<lambda>i. xs ! i)
       (filter (\<lambda>i. \<forall>j<i. signature (xs ! j) \<noteq> signature (xs ! i)) [0..<length xs])"
    by (simp add: deduplicate_def deduplicate_loop_char)
  show "distinct (map signature (deduplicate xs))"
    unfolding deduplicate_def by (rule deduplicate_loop_distinct) simp_all
qed

text \<open>
  The second record differs from the first in person name, company and source URL only and
  is dropped; the third has another phone field and is kept; a repetition of the first
  record is dropped.
\<close>

theorem deduplicate_keeps_first_witness:
  "deduplicate [rec_a, rec_b, rec_c, rec_a] = [rec_a, rec_c]
   \<and> distinct (map signature (deduplicate [rec_a, rec_b, rec_c, rec_a]))"
  using deduplicate_keeps_first [of "[rec_a, rec_b, rec_c, rec_a]"]
  by (simp add: signature_def rec_a_def rec_b_def rec_c_def upt_rec All_less_Suc numeral_nat
      del: upt_Suc)

text \<open>
  C10: \<open>deduplicate\<close> is idempotent, and its output is a subsequence of its input: the
  output records are input records, in input order.
\<close>

theorem deduplicate_idempotent_subseq:
  "deduplicate (deduplicate xs) = deduplicate xs \<and> subseq (deduplicate xs) xs"
proof
  have "distinct (map signature (deduplicate xs))"
    unfolding deduplicate_def by (rule deduplicate_loop_distinct) simp_all
  then have "deduplicate_loop (deduplicate xs) {} [] = [] @ deduplicate xs"
    by (rule deduplicate_loop_fixed) simp
  then show "deduplicate (deduplicate xs) = deduplicate xs"
    by (simp add: deduplicate_def)
  from deduplicate_loop_subseq [of xs "{}" "[]"]
  show "subseq (deduplicate xs) xs"
    by (auto simp: deduplicate_def)
qed

section \<open>Properties of the Crawl Orchestrator\<close>

lemma forget_process_page:
  "forget_calls (process_page (recording scrape) st page) = process_page scrape (forget_calls st) page"
  by (simp add: process_page_def recording_def forget_calls_def split: prod.splits option.splits)

lemma forget_crawl_pages:
  "forget_calls (crawl_pages (recording scrape) st pages) = crawl_pages scrape (forget_calls st) pages"
  by (induction pages arbitrary: st) (simp_all add: forget_process_page)

lemma world_forget_calls: "world (forget_calls st) = fst (world st)"
  by (simp add: forget_calls_def)

lemma forget_crawl_site:
  "forget_calls (crawl_site (unrecorded discover) (recording scrape) max_pages st base_url) =
   crawl_site discover scrape max_pages (forget_calls st) base_url"
proof -
  obtain pages w' where d: "discover (fst (world st)) base_url max_pages = (pages, w')"
    by (cases "discover (fst (world st)) base_url max_pages")
  have e: "forget_calls (st\<lparr>world := (w', snd (world st))\<rparr>) = (forget_calls st)\<lparr>world := w'\<rparr>"
    by (simp add: forget_calls_def)
  have "forget_calls (crawl_pages (recording scrape) (st\<lparr>world := (w', snd (world st))\<rparr>)
          (base_url # pages)) =
        crawl_pages scrape ((forget_calls st)\<lparr>world := w'\<rparr>) (base_url # pages)"
    by (simp only: forget_crawl_pages e)
  with d show ?thesis
    by (simp add: crawl_site_def unrecorded_def world_forget_calls)
qed

lemma forget_crawl_sites:
  "forget_calls (crawl_sites (unrecorded discover) (recording scrape) max_pages st url_batch) =
   crawl_sites discover scrape max_pages (forget_calls st) url_batch"
  by (induction url_batch arbitrary: st) (simp_all add: forget_crawl_site)

lemma forget_crawl_and_scrape:
  "forget_calls (crawl_and_scrape (unrecorded discover) (recording scrape) url_batch max_pages
     (start_recording st)) = crawl_and_scrape discover scrape url_batch max_pages st"
proof -
  have a: "forget_calls ((start_recording st)\<lparr>results := []\<rparr>) = st\<lparr>results := []\<rparr>"
    by (simp add: forget_calls_def start_recording_def)
  have b: "\<And>s. forget_calls (s\<lparr>visited_file := visited_links s\<rparr>)
     = (forget_calls s)\<lparr>visited_file := visited_links (forget_calls s)\<rparr>"
    by (simp add: forget_calls_def)
  show ?thesis
    by (simp add: crawl_and_scrape_def Let_def b forget_crawl_sites a)
qed

lemma visited_after_snoc:
  "visited_after V (calls @ [(page, data)]) =
     (if data \<noteq> None then insert page (visited_after V calls) else visited_after V calls)"
  by (induction V calls rule: visited_after.induct) simp_all

lemma unvisited_when_called_snoc:
  "unvisited_when_called V (calls @ [(page, data)]) \<longleftrightarrow>
     unvisited_when_called V calls \<and> page \<notin> visited_after V calls"
  by (induction V calls rule: unvisited_when_called.induct) auto

lemma visited_after_mono: "V \<subseteq> visited_after V calls"
  by (induction V calls rule: visited_after.induct) auto

lemma visited_after_success: "(page, Some data) \<in> set calls \<Longrightarrow> page \<in> visited_after V calls"
proof (induction V calls rule: visited_after.induct)
  case (1 V)
  then show ?case by simp
next
  case (2 V p d calls)
  show ?case
  proof (cases "(page, Some data) = (p, d)")
    case True
    then have "page \<in> (if d \<noteq> None then insert p V else V)" by auto
    then show ?thesis
      using visited_after_mono [of "if d \<noteq> None then insert p V else V" calls] by auto
  next
    case False
    with "2.prems" have "(page, Some data) \<in> set calls" by auto
    then have "page \<in> visited_after (if d \<noteq> None then insert p V else V) calls"
      by (rule "2.IH")
    then show ?thesis by simp
  qed
qed

lemma calls_agree_process_page:
  "calls_agree V st \<Longrightarrow> calls_agree V (process_page (recording scrape) st page)"
proof (cases "page \<in> visited_links st")
  case True
  assume "calls_agree V st"
  with True show ?thesis by (simp add: process_page_def)
next
  case False
  assume a: "calls_agree V st"
  obtain data w' where s: "scrape (fst (world st)) page = (data, w')"
    by (cases "scrape (fst (world st)) page")
  from a False have "page \<notin> visited_after V (snd (world st))"
    by (simp add: calls_agree_def)
  with a False s show ?thesis
    by (cases data)
      (simp_all add: process_page_def recording_def calls_agree_def visited_after_snoc
        unvisited_when_called_snoc)
qed

lemma calls_agree_crawl_pages:
  "calls_agree V st \<Longrightarrow> calls_agree V (crawl_pages (recording scrape) st pages)"
  by (induction pages arbitrary: st) (simp_all add: calls_agree_process_page)

lemma calls_agree_crawl_site:
  "calls_agree V st \<Longrightarrow>
   calls_agree V (crawl_site (unrecorded discover) (recording scrape) max_pages st base_url)"
proof -
  assume a: "calls_agree V st"
  obtain pages w' where d: "discover (fst (world st)) base_url max_pages = (pages, w')"
    by (cases "discover (fst (world st)) base_url max_pages")
  from a have "calls_agree V (st\<lparr>world := (w', snd (world st))\<rparr>)"
    by (simp add: calls_agree_def)
  then have "calls_agree V (crawl_pages (recording scrape) (st\<lparr>world := (w', snd (world st))\<rparr>)
      (base_url # pages))"
    by (rule calls_agree_crawl_pages)
  with d show ?thesis
    by (simp add: crawl_site_def unrecorded_def)
qed

lemma calls_agree_crawl_sites:
  "calls_agree V st \<Longrightarrow>
   calls_agree V (crawl_sites (unrecorded discover) (recording scrape) max_pages st url_batch)"
  by (induction url_batch arbitrary: st) (simp_all add: calls_agree_crawl_site)

lemma calls_agree_crawl_and_scrape:
  "calls_agree (visited_links st)
     (crawl_and_scrape (unrecorded discover) (recording scrape) url_batch max_pages
       (start_recording st))"
proof -
  have "calls_agree (visited_links st) ((start_recording st)\<lparr>results := []\<rparr>)"
    by (simp add: calls_agree_def start_recording_def)
  then have "calls_agree (visited_links st)
      (crawl_sites (unrecorded discover) (recording scrape) max_pages
        ((start_recording st)\<lparr>results := []\<rparr>) url_batch)"
    by (rule calls_agree_crawl_sites)
  then show ?thesis
    by (simp add: crawl_and_scrape_def Let_def calls_agree_def)
qed

lemma visited_links_forget_calls: "visited_links (forget_calls st) = visited_links st"
  by (simp add: forget_calls_def)

lemma visited_links_run:
  "visited_links (crawl_and_scrape discover scrape url_batch max_pages st) =
     visited_after (visited_links st) (extractor_calls discover scrape url_batch max_pages st)"
proof -
  let ?r = "crawl_and_scrape (unrecorded discover) (recording scrape) url_batch max_pages
       (start_recording st)"
  have "visited_links (crawl_and_scrape discover scrape url_batch max_pages st) = visited_links ?r"
    using forget_crawl_and_scrape [of discover scrape url_batch max_pages st, symmetric]
    by (simp add: visited_links_forget_calls)
  also have "\<dots> = visited_after (visited_links st) (snd (world ?r))"
    using calls_agree_crawl_and_scrape [of st discover scrape url_batch max_pages]
    by (simp add: calls_agree_def)
  finally show ?thesis by (simp add: extractor_calls_def)
qed

text \<open>
  C6: the visited set after \<open>crawl_and_scrape\<close> contains the visited set before it, and the
  page of every invocation of the extractor that returned a page record during the run.
\<close>

theorem visited_set_grows:
  "visited_links st \<subseteq> visited_links (crawl_and_scrape discover scrape url_batch max_pages st)
   \<and> (\<forall>c \<in> set (extractor_calls discover scrape url_batch max_pages st).
        snd c \<noteq> None \<longrightarrow>
          fst c \<in> visited_links (crawl_and_scrape discover scrape url_batch max_pages st))"
proof
  show "visited_links st \<subseteq> visited_links (crawl_and_scrape discover scrape url_batch max_pages st)"
    by (simp add: visited_links_run visited_after_mono)
  show "\<forall>c \<in> set (extractor_calls discover scrape url_batch max_pages st).
        snd c \<noteq> None \<longrightarrow>
          fst c \<in> visited_links (crawl_and_scrape discover scrape url_batch max_pages st)"
  proof (intro ballI impI)
    fix c
    assume c: "c \<in> set (extractor_calls discover scrape url_batch max_pages st)"
      and "snd c \<noteq> None"
    then obtain data where "snd c = Some data"
      by auto
    then have "c = (fst c, Some data)"
      by (simp add: prod_eq_iff)
    with c have "(fst c, Some data) \<in> set (extractor_calls discover scrape url_batch max_pages st)"
      by simp
    then show "fst c \<in> visited_links (crawl_and_scrape discover scrape url_batch max_pages st)"
      by (simp add: visited_links_run visited_after_success)
  qed
qed

text \<open>
  C9: a page that is in the visited set when it is processed is skipped: the state, and
  with it the outside world, is left as it was, so the extractor is not invoked. Over a
  whole run, every invocation of the extractor is for a page that was outside the visited
  set at that moment.
\<close>

theorem visited_page_not_extracted:
  "(page \<in> visited_links st \<longrightarrow> process_page scrape st page = st)
   \<and> unvisited_when_called (visited_links st)
       (extractor_calls discover scrape url_batch max_pages st)"
proof
  show "page \<in> visited_links st \<longrightarrow> process_page scrape st page = st"
    by (simp add: process_page_def)
  show "unvisited_when_called (visited_links st)
       (extractor_calls discover scrape url_batch max_pages st)"
    using calls_agree_crawl_and_scrape [of st discover scrape url_batch max_pages]
    by (simp add: calls_agree_def extractor_calls_def)
qed

lemma person_names_expand_page:
  "map person_name (expand_page data) =
     (if names data = [] then [None] else map Some (names data))"
proof (cases "names data = []")
  case True
  then show ?thesis
    by (simp add: expand_page_def contact_at_def)
next
  case False
  then have m: "max (length (names data)) (Suc 0) = length (names data)"
    by (cases "names data") simp_all
  have "map person_name (expand_page data) =
      map (\<lambda>i. Some (names data ! i)) [0..<length (names data)]"
    by (simp add: expand_page_def m contact_at_def)
  also have "\<dots> = map Some (map (\<lambda>i. names data ! i) [0..<length (names data)])"
    by (simp add: comp_def)
  also have "\<dots> = map Some (names data)"
    by (simp only: map_nth)
  finally show ?thesis using False by simp
qed

lemma fields_expand_page:
  "r \<in> set (expand_page data) \<Longrightarrow>
     company r = (case orgs data of [] \<Rightarrow> None | org # other \<Rightarrow> Some org) \<and>
     emails_field r = (if emails data = [] then None else Some (join '', '' (emails data))) \<and>
     phones_field r = (if phones data = [] then None else Some (join '', '' (phones data))) \<and>
     designation r = None \<and> source_url r = url data"
  by (cases "orgs data") (auto simp: expand_page_def contact_at_def)

text \<open>
  C4: when the orchestrator processes an unvisited page and the extractor returns a page
  record with names \<open>ns\<close>, organisations \<open>os\<close>, emails \<open>es\<close> and phones \<open>ps\<close>, it appends exactly
  \<open>max (length ns) 1\<close> contact records: one per name of \<open>ns\<close> in order, or one without a person
  name when \<open>ns\<close> is empty; each has as company the first element of \<open>os\<close> (none when \<open>os\<close> is
  empty), as emails the elements of \<open>es\<close> joined with a comma and a space (none when \<open>es\<close> is
  empty), and as phones the elements of \<open>ps\<close> joined likewise (none when \<open>ps\<close> is empty).
\<close>

theorem one_contact_per_name:
  "page \<notin> visited_links st \<and> scrape (world st) page = (Some data, w') \<longrightarrow>
     results (process_page scrape st page) = results st @ expand_page data
     \<and> length (expand_page data) = max (length (names data)) 1
     \<and> map person_name (expand_page data) =
         (if names data = [] then [None] else map Some (names data))
     \<and> (\<forall>r \<in> set (expand_page data).
          company r = (case orgs data of [] \<Rightarrow> None | org # other \<Rightarrow> Some org)
          \<and> emails_field r = (if emails data = [] then None else Some (join '', '' (emails data)))
          \<and> phones_field r = (if phones data = [] then None else Some (join '', '' (phones data))))"
proof (intro impI conjI ballI)
  assume "page \<notin> visited_links st \<and> scrape (world st) page = (Some data, w')"
  then show "results (process_page scrape st page) = results st @ expand_page data"
    by (simp add: process_page_def)
next
  show "length (expand_page data) = max (length (names data)) 1"
    by (simp add: expand_page_def)
next
  show "map person_name (expand_page data) =
         (if names data = [] then [None] else map Some (names data))"
    by (rule person_names_expand_page)
next
  fix r assume "r \<in> set (expand_page data)"
  then show "company r = (case orgs data of [] \<Rightarrow> None | org # other \<Rightarrow> Some org)"
    by (simp add: fields_expand_page)
next
  fix r assume "r \<in> set (expand_page data)"
  then show "emails_field r = (if emails data = [] then None else Some (join '', '' (emails data)))"
    by (simp add: fields_expand_page)
next
  fix r assume "r \<in> set (expand_page data)"
  then show "phones_field r = (if phones data = [] then None else Some (join '', '' (phones data)))"
    by (simp add: fields_expand_page)
qed

theorem one_contact_per_name_witness:
  "''https://example.in/team'' \<notin> visited_links st_ex
   \<and> scrape_ex (world st_ex) ''https://example.in/team'' = (Some page_team, 1)
   \<and> results (process_page scrape_ex st_ex ''https://example.in/team'') =
       [\<lparr>person_name = Some ''Asha Rao'', designation = None, company = Some ''Example Ltd'',
         emails_field = Some ''asha@example.in, ravi@example.in'', phones_field = None,
         source_url = ''https://example.in/team''\<rparr>,
        \<lparr>person_name = Some ''Ravi Iyer'', designation = None, company = Some ''Example Ltd'',
         emails_field = Some ''asha@example.in, ravi@example.in'', phones_field = None,
         source_url = ''https://example.in/team''\<rparr>]
   \<and> map person_name (expand_page page_jane) = [Some ''Jane Doe'']"
  using one_contact_per_name [of "''https://example.in/team''" st_ex scrape_ex page_team 1]
    one_contact_per_name [of "''https://example.in''" st_ex scrape_ex page_jane 1]
  by (simp add: st_ex_def scrape_ex_def page_team_def page_jane_def expand_page_def
      contact_at_def upt_rec)

text \<open>
  C5: when the extractor fails on an unvisited page, the orchestrator appends no contact
  record for it, does not add it to the visited set, and goes on with the remaining pages:
  the run over the page and the pages after it is the run over the pages after it, from a
  state that differs only in the outside world and in the pause made.
\<close>

theorem failed_page_is_skipped:
  "page \<notin> visited_links st \<and> scrape (world st) page = (None, w') \<longrightarrow>
     results (process_page scrape st page) = results st
     \<and> visited_links (process_page scrape st page) = visited_links st
     \<and> crawl_pages scrape st (page # pages) =
         crawl_pages scrape (st\<lparr>world := w', slept := slept st + 1\<rparr>) pages"
  by (simp add: process_page_def)

theorem failed_page_is_skipped_witness:
  "''https://example.in/down'' \<notin> visited_links st_ex
   \<and> scrape_ex (world st_ex) ''https://example.in/down'' = (None, 1)
   \<and> results (process_page scrape_ex st_ex ''https://example.in/down'') = []
   \<and> visited_links (process_page scrape_ex st_ex ''https://example.in/down'') = {''https://old.in''}
   \<and> results (crawl_pages scrape_ex st_ex [''https://example.in/down'', ''https://example.in'']) =
       [\<lparr>person_name = Some ''Jane Doe'', designation = None, company = None,
         emails_field = Some ''jane@example.in'', phones_field = Some ''9876543210'',
         source_url = ''https://example.in''\<rparr>]"
  using failed_page_is_skipped [of "''https://example.in/down''" st_ex scrape_ex 1
      "[''https://example.in'']"]
  by (simp add: st_ex_def scrape_ex_def page_jane_def process_page_def expand_page_def
      contact_at_def upt_rec)

lemma extractor_calls_ex:
  "extractor_calls discover_ex scrape_ex [''https://old.in'', ''https://example.in''] 10 st_ex =
     [(''https://example.in'', Some page_jane), (''https://example.in/team'', Some page_team),
      (''https://example.in/down'', None)]"
  by (simp add: extractor_calls_def crawl_and_scrape_def crawl_site_def unrecorded_def
      discover_ex_def start_recording_def st_ex_def process_page_def recording_def scrape_ex_def)

lemma visited_links_ex:
  "visited_links (crawl_and_scrape discover_ex scrape_ex [''https://old.in'', ''https://example.in'']
      10 st_ex) = {''https://old.in'', ''https://example.in'', ''https://example.in/team''}"
  by (auto simp add: crawl_and_scrape_def crawl_site_def
      discover_ex_def st_ex_def process_page_def scrape_ex_def)

theorem visited_set_grows_witness:
  "{''https://old.in''} \<subseteq>
     visited_links (crawl_and_scrape discover_ex scrape_ex [''https://old.in'', ''https://example.in'']
       10 st_ex)
   \<and> extractor_calls discover_ex scrape_ex [''https://old.in'', ''https://example.in''] 10 st_ex =
     [(''https://example.in'', Some page_jane), (''https://example.in/team'', Some page_team),
      (''https://example.in/down'', None)]
   \<and> ''https://example.in'' \<in>
     visited_links (crawl_and_scrape discover_ex scrape_ex [''https://old.in'', ''https://example.in'']
       10 st_ex)
   \<and> ''https://example.in/team'' \<in>
     visited_links (crawl_and_scrape discover_ex scrape_ex [''https://old.in'', ''https://example.in'']
       10 st_ex)"
  using visited_set_grows [of st_ex discover_ex scrape_ex
      "[''https://old.in'', ''https://example.in'']" 10]
  by (simp add: extractor_calls_ex) (simp add: st_ex_def)

theorem visited_page_not_extracted_witness:
  "''https://old.in'' \<in> visited_links st_ex
   \<and> world (process_page scrape_ex st_ex ''https://old.in'') = 0
   \<and> unvisited_when_called {''https://old.in''}
       [(''https://example.in'', Some page_jane), (''https://example.in/team'', Some page_team),
        (''https://example.in/down'', None)]"
  using visited_page_not_extracted [of "''https://old.in''" st_ex scrape_ex discover_ex
      "[''https://old.in'', ''https://example.in'']" 10]
  by (simp add: extractor_calls_ex) (simp add: st_ex_def)

section \<open>Properties of the Batch Selector\<close>

lemma select_batch_cases:
  assumes "lists_set list_of1 (all_urls - visited)"
  shows "case select_batch list_of1 all_urls visited b of
        None \<Rightarrow> all_urls - visited = {}
      | Some batch \<Rightarrow> length batch \<le> b \<and> set batch \<subseteq> all_urls - visited \<and> distinct batch"
proof (cases "list_of1 (all_urls - visited) = []")
  case True
  with assms have e: "all_urls - visited = {}"
    by (auto simp: lists_set_def simp del: Diff_eq_empty_iff)
  from True have sb: "select_batch list_of1 all_urls visited b = None"
    by (simp add: select_batch_def)
  from e show ?thesis unfolding sb by (simp only: option.case)
next
  case False
  from assms have "set (take b (list_of1 (all_urls - visited))) \<subseteq> all_urls - visited"
    using set_take_subset [of b "list_of1 (all_urls - visited)"] by (simp add: lists_set_def)
  moreover from assms have "distinct (take b (list_of1 (all_urls - visited)))"
    by (simp add: lists_set_def)
  ultimately show ?thesis using False by (simp add: select_batch_def)
qed

lemma select_batch_all:
  assumes l: "lists_set list_of1 (all_urls - visited)"
    and c: "card (all_urls - visited) \<le> b" and n: "all_urls - visited \<noteq> {}"
  shows "select_batch list_of1 all_urls visited b = Some (list_of1 (all_urls - visited))"
proof -
  from l have "length (list_of1 (all_urls - visited)) = card (all_urls - visited)"
    using distinct_card [of "list_of1 (all_urls - visited)"] by (simp add: lists_set_def)
  with c have "take b (list_of1 (all_urls - visited)) = list_of1 (all_urls - visited)"
    by simp
  moreover from l n have "list_of1 (all_urls - visited) \<noteq> []"
    by (auto simp: lists_set_def simp del: Diff_eq_empty_iff)
  ultimately show ?thesis by (simp add: select_batch_def)
qed

text \<open>
  C8: when \<open>list\<close> lists the set difference of the pool and the visited set, the Batch
  Selector either finds nothing left (the difference is empty) or returns at most \<open>b\<close> URLs,
  all different and all in the difference; with a pool of 7 URLs of which 5 are visited and
  \<open>b = 5\<close> it returns exactly the 2 unvisited URLs.
\<close>

theorem select_batch_from_backlog:
  "lists_set list_of1 (all_urls - visited) \<longrightarrow>
     (case select_batch list_of1 all_urls visited b of
        None \<Rightarrow> all_urls - visited = {}
      | Some batch \<Rightarrow> length batch \<le> b \<and> set batch \<subseteq> all_urls - visited \<and> distinct batch)
     \<and> (card all_urls = 7 \<and> card (all_urls \<inter> visited) = 5 \<and> b = 5 \<longrightarrow>
          (\<exists>batch. select_batch list_of1 all_urls visited b = Some batch
             \<and> set batch = all_urls - visited \<and> length batch = 2))"
proof (intro impI conjI)
  assume l: "lists_set list_of1 (all_urls - visited)"
  then show "case select_batch list_of1 all_urls visited b of
        None \<Rightarrow> all_urls - visited = {}
      | Some batch \<Rightarrow> length batch \<le> b \<and> set batch \<subseteq> all_urls - visited \<and> distinct batch"
    by (rule select_batch_cases)
  assume s: "card all_urls = 7 \<and> card (all_urls \<inter> visited) = 5 \<and> b = 5"
  then have f: "finite all_urls"
    using card_ge_0_finite [of all_urls] by simp
  then have "card (all_urls - visited) = card all_urls - card (all_urls \<inter> visited)"
    by (rule card_Diff_subset_Int [OF finite_Int [OF disjI1]])
  with s have c: "card (all_urls - visited) = 2" by simp
  then have n: "all_urls - visited \<noteq> {}"
    by (metis card.empty zero_neq_numeral)
  from c s have "card (all_urls - visited) \<le> b" by simp
  with l have "select_batch list_of1 all_urls visited b = Some (list_of1 (all_urls - visited))"
    using n by (rule select_batch_all)
  moreover from l have "set (list_of1 (all_urls - visited)) = all_urls - visited"
    by (simp add: lists_set_def)
  moreover from l c have "length (list_of1 (all_urls - visited)) = 2"
    using distinct_card [of "list_of1 (all_urls - visited)"] by (simp add: lists_set_def)
  ultimately show "\<exists>batch. select_batch list_of1 all_urls visited b = Some batch
             \<and> set batch = all_urls - visited \<and> length batch = 2"
    by simp
qed

lemma lists_set_list_in: "s \<subseteq> set order \<Longrightarrow> lists_set (list_in order) s"
  by (auto simp: lists_set_def list_in_def)

theorem select_batch_from_backlog_witness:
  "lists_set (list_in pool_ex) (set pool_ex - visited_ex)
   \<and> card (set pool_ex) = 7 \<and> card (set pool_ex \<inter> visited_ex) = 5
   \<and> select_batch (list_in pool_ex) (set pool_ex) visited_ex 5 =
       Some [''https://b.in'', ''https://f.in'']"
proof -
  have l: "lists_set (list_in pool_ex) (set pool_ex - visited_ex)"
    by (rule lists_set_list_in) auto
  have c: "card (set pool_ex) = 7"
    by (simp add: pool_ex_def)
  have "set pool_ex \<inter> visited_ex = visited_ex"
    by (auto simp: pool_ex_def visited_ex_def)
  then have v: "card (set pool_ex \<inter> visited_ex) = 5"
    by (simp add: visited_ex_def)
  have s: "select_batch (list_in pool_ex) (set pool_ex) visited_ex 5 =
       Some [''https://b.in'', ''https://f.in'']"
    by (simp add: select_batch_def list_in_def pool_ex_def visited_ex_def)
  from select_batch_from_backlog [of "list_in pool_ex" "set pool_ex" visited_ex 5] l c v s
  show ?thesis by simp
qed

section \<open>Properties of the Contact Extractor\<close>

lemma findall_email_ex:
  "findall EMAIL_REGEX text_ex = [''noreply@example.in'', ''NoReply@example.in'', ''info@example.in'']"
  by (simp add: findall.simps EMAIL_REGEX_def text_ex_def alnum_def)

lemma findall_phone_ex:
  "findall PHONE_REGEX text_ex = [''+91 9876543210'', ''9876543210'']"
  by (simp add: findall.simps PHONE_REGEX_def phone_prefix_def phone_number_def text_ex_def py_digits_def py_space_def eval_nat_numeral)

lemma netloc_ex:
  "url_netloc ''https://evil.com/?q=example.in'' = ''evil.com''"
  "url_netloc ''https://example.in'' = ''example.in''"
  by (simp_all add: url_netloc_def alnum_def)

lemma scrape_page_Some:
  assumes "scrape_page env w page_url = (Some data, w')"
  obtains t ents where "page_text env w page_url = (Some t, w')" and "nlp env t = Some ents"
    and "data = \<lparr>url = page_url, names = fst (extract_entities ents),
           orgs = snd (extract_entities ents),
           emails = filter (\<lambda>email. \<not> startswith email [''noreply'', ''no-reply'', ''donotreply''])
                      (list_of env (set (findall EMAIL_REGEX t))),
           phones = list_of env (set (findall PHONE_REGEX t))\<rparr>"
  using assms
  by (auto simp: scrape_page_def Let_def split: prod.splits option.splits)

text \<open>
  C2: when the extractor succeeds on a page, and \<open>list\<close> lists the two sets of matches, no
  returned email starts with \<open>noreply\<close>, \<open>no-reply\<close> or \<open>donotreply\<close> (compared character by
  character, so another spelling such as \<open>NoReply\<close> is kept); the returned emails are exactly
  the matches of the email pattern without such a prefix, the returned phones are exactly the
  matches of the phone pattern, and neither list repeats a string.
\<close>

theorem extracted_emails_filtered:
  "page_text env w page_url = (Some text, w1)
   \<and> lists_set (list_of env) (set (findall EMAIL_REGEX text))
   \<and> lists_set (list_of env) (set (findall PHONE_REGEX text))
   \<and> scrape_page env w page_url = (Some data, w') \<longrightarrow>
     (\<forall>e \<in> set (emails data).
        \<not> prefix ''noreply'' e \<and> \<not> prefix ''no-reply'' e \<and> \<not> prefix ''donotreply'' e)
     \<and> set (emails data) =
         {e \<in> set (findall EMAIL_REGEX text).
            \<not> prefix ''noreply'' e \<and> \<not> prefix ''no-reply'' e \<and> \<not> prefix ''donotreply'' e}
     \<and> set (phones data) = set (findall PHONE_REGEX text)
     \<and> distinct (emails data) \<and> distinct (phones data)"
proof (intro impI)
  assume a: "page_text env w page_url = (Some text, w1)
   \<and> lists_set (list_of env) (set (findall EMAIL_REGEX text))
   \<and> lists_set (list_of env) (set (findall PHONE_REGEX text))
   \<and> scrape_page env w page_url = (Some data, w')"
  then have "scrape_page env w page_url = (Some data, w')" by simp
  then obtain text' ents where t: "page_text env w page_url = (Some text', w')"
    and e: "emails data = filter (\<lambda>email. \<not> startswith email [''noreply'', ''no-reply'', ''donotreply''])
                      (list_of env (set (findall EMAIL_REGEX text')))"
    and p: "phones data = list_of env (set (findall PHONE_REGEX text'))"
    by (rule scrape_page_Some) simp
  from a t have tt: "text' = text" by simp
  from a have le: "set (list_of env (set (findall EMAIL_REGEX text))) = set (findall EMAIL_REGEX text)"
    and de: "distinct (list_of env (set (findall EMAIL_REGEX text)))"
    and lp: "set (list_of env (set (findall PHONE_REGEX text))) = set (findall PHONE_REGEX text)"
    and dp: "distinct (list_of env (set (findall PHONE_REGEX text)))"
    by (simp_all add: lists_set_def)
  have s: "set (emails data) =
         {e \<in> set (findall EMAIL_REGEX text).
            \<not> prefix ''noreply'' e \<and> \<not> prefix ''no-reply'' e \<and> \<not> prefix ''donotreply'' e}"
    unfolding e tt using le by (auto simp: startswith_def)
  then have "\<forall>e \<in> set (emails data).
        \<not> prefix ''noreply'' e \<and> \<not> prefix ''no-reply'' e \<and> \<not> prefix ''donotreply'' e"
    by blast
  moreover have "distinct (emails data)"
    unfolding e tt using de by simp
  moreover have "set (phones data) = set (findall PHONE_REGEX text)" "distinct (phones data)"
    unfolding p tt using lp dp by simp_all
  ultimately show "(\<forall>e \<in> set (emails data).
        \<not> prefix ''noreply'' e \<and> \<not> prefix ''no-reply'' e \<and> \<not> prefix ''donotreply'' e)
     \<and> set (emails data) =
         {e \<in> set (findall EMAIL_REGEX text).
            \<not> prefix ''noreply'' e \<and> \<not> prefix ''no-reply'' e \<and> \<not> prefix ''donotreply'' e}
     \<and> set (phones data) = set (findall PHONE_REGEX text)
     \<and> distinct (emails data) \<and> distinct (phones data)"
    using s by simp
qed

lemma scrape_page_ex:
  "scrape_page env_ex 0 ''https://example.in/contact'' =
     (Some \<lparr>url = ''https://example.in/contact'', names = [''Jane Doe''], orgs = [''Example Ltd''],
        emails = [''NoReply@example.in'', ''info@example.in''],
        phones = [''9876543210'', ''+91 9876543210'']\<rparr>, 1)"
  by (simp add: scrape_page_def env_ex_def findall_email_ex findall_phone_ex list_in_def
      order_ex_def startswith_def extract_entities_def strip_def py_space_def)

theorem extracted_emails_filtered_witness:
  "page_text env_ex 0 ''https://example.in/contact'' = (Some text_ex, 1)
   \<and> lists_set (list_of env_ex) (set (findall EMAIL_REGEX text_ex))
   \<and> lists_set (list_of env_ex) (set (findall PHONE_REGEX text_ex))
   \<and> scrape_page env_ex 0 ''https://example.in/contact'' =
     (Some \<lparr>url = ''https://example.in/contact'', names = [''Jane Doe''], orgs = [''Example Ltd''],
        emails = [''NoReply@example.in'', ''info@example.in''],
        phones = [''9876543210'', ''+91 9876543210'']\<rparr>, 1)
   \<and> distinct [''NoReply@example.in'', ''info@example.in'']
   \<and> \<not> prefix ''noreply'' ''NoReply@example.in''"
proof -
  have t: "page_text env_ex 0 ''https://example.in/contact'' = (Some text_ex, 1)"
    by (simp add: env_ex_def)
  have l: "list_of env_ex = list_in order_ex"
    by (simp add: env_ex_def)
  have le: "lists_set (list_of env_ex) (set (findall EMAIL_REGEX text_ex))"
    unfolding l by (rule lists_set_list_in) (simp add: findall_email_ex order_ex_def)
  have lp: "lists_set (list_of env_ex) (set (findall PHONE_REGEX text_ex))"
    unfolding l by (rule lists_set_list_in) (simp add: findall_phone_ex order_ex_def)
  from extracted_emails_filtered [of env_ex 0 "''https://example.in/contact''" text_ex 1
      "\<lparr>url = ''https://example.in/contact'', names = [''Jane Doe''], orgs = [''Example Ltd''],
        emails = [''NoReply@example.in'', ''info@example.in''],
        phones = [''9876543210'', ''+91 9876543210'']\<rparr>" 1] t le lp scrape_page_ex
  show ?thesis by simp
qed

section \<open>Properties of the phone pattern\<close>

lemma plus_class_shorter: "r \<in> set (plus_class cs s) \<Longrightarrow> length r < length s"
  by (induction cs s rule: plus_class.induct) (auto split: if_splits)

lemma rmatch_min_len: "r \<in> set (rmatch rx s) \<Longrightarrow> length r + min_len rx \<le> length s"
proof (induction rx arbitrary: s r)
  case Eps
  then show ?case by simp
next
  case (Class cs)
  then show ?case by (cases s) (auto split: if_splits)
next
  case (Seq a b)
  from Seq.prems obtain m where m: "m \<in> set (rmatch a s)" and r: "r \<in> set (rmatch b m)"
    by auto
  from Seq.IH(1) [OF m] Seq.IH(2) [OF r] show ?case by simp
next
  case (Alt a b)
  from Alt.prems have "r \<in> set (rmatch a s) \<or> r \<in> set (rmatch b s)" by simp
  then show ?case
  proof
    assume "r \<in> set (rmatch a s)"
    from Alt.IH(1) [OF this] show ?thesis by simp
  next
    assume "r \<in> set (rmatch b s)"
    from Alt.IH(2) [OF this] show ?thesis by simp
  qed
next
  case (Opt a)
  from Opt.prems have "r \<in> set (rmatch a s) \<or> r = s" by auto
  then show ?case
  proof
    assume "r \<in> set (rmatch a s)"
    from Opt.IH [OF this] show ?thesis by simp
  next
    assume "r = s"
    then show ?thesis by simp
  qed
next
  case (Plus cs)
  then show ?case using plus_class_shorter [of r cs s] by simp
qed

lemma rmatch_too_short: "length s < min_len rx \<Longrightarrow> rmatch rx s = []"
proof (rule ccontr)
  assume l: "length s < min_len rx" and "rmatch rx s \<noteq> []"
  then obtain r where "r \<in> set (rmatch rx s)"
    by (cases "rmatch rx s") auto
  from rmatch_min_len [OF this] l show False by simp
qed

lemma findall_too_short: "length s < min_len rx \<Longrightarrow> findall rx s = []"
proof (induction s)
  case Nil
  then have "rmatch rx [] = []" by (rule rmatch_too_short)
  then show ?case by (simp add: findall.simps [of rx "[]"])
next
  case (Cons c t)
  from Cons.prems have "rmatch rx (c # t) = []" by (rule rmatch_too_short)
  moreover from Cons have "findall rx t = []" by simp
  ultimately show ?case by (simp add: findall.simps [of rx "c # t"])
qed

lemma min_len_times: "min_len (times n rx) = n * min_len rx"
  by (induction n) simp_all

lemma min_len_phone_number: "min_len phone_number = 10"
  by (simp add: phone_number_def min_len_times)

lemma min_len_phone_prefix: "min_len phone_prefix = 2"
  by (simp add: phone_prefix_def)

lemma min_len_PHONE_REGEX: "min_len PHONE_REGEX = 10"
  by (simp add: PHONE_REGEX_def min_len_phone_number)

lemma rmatch_times_class:
  "set ds \<subseteq> set cs \<Longrightarrow> rmatch (times (length ds) (Class cs)) (ds @ rest) = [rest]"
  by (induction ds) simp_all

lemma rmatch_phone_number:
  assumes "length ds = 10" and "set ds \<subseteq> set py_digits" and "hd ds \<in> set ''6789''"
  shows "rmatch phone_number (ds @ rest) = [rest]"
proof -
  from assms(1) obtain d ds' where ds: "ds = d # ds'" and l: "length ds' = 9"
    by (cases ds) auto
  from assms(2) ds have "set ds' \<subseteq> set py_digits" by simp
  then have "rmatch (times (length ds') (Class py_digits)) (ds' @ rest) = [rest]"
    by (rule rmatch_times_class)
  with l have t: "rmatch (times 9 (Class py_digits)) (ds' @ rest) = [rest]" by simp
  from assms(3) ds have "d \<in> set ''6789''" by simp
  then have "rmatch (Class ''6789'') (ds @ rest) = [ds' @ rest]"
    unfolding ds by (simp del: set_simps)
  then show ?thesis
    unfolding phone_number_def using t by (simp del: set_simps)
qed

lemma rmatch_phone_number_other:
  assumes "ds \<noteq> []" and "hd ds \<notin> set ''6789''"
  shows "rmatch phone_number ds = []"
proof -
  from assms obtain d ds' where ds: "ds = d # ds'" and d: "d \<notin> set ''6789''"
    by (cases ds) auto
  from d have "rmatch (Class ''6789'') ds = []"
    unfolding ds by (simp del: set_simps)
  then show ?thesis
    unfolding phone_number_def by simp
qed

lemma concat_map_all_empty: "(\<And>x. x \<in> set xs \<Longrightarrow> f x = []) \<Longrightarrow> concat (map f xs) = []"
  by (induction xs) simp_all

lemma rmatch_PHONE_REGEX_ten:
  assumes "length ds = 10"
  shows "rmatch PHONE_REGEX ds = rmatch phone_number ds"
proof -
  have "concat (map (rmatch phone_number) (rmatch phone_prefix ds)) = []"
  proof (rule concat_map_all_empty)
    fix r assume "r \<in> set (rmatch phone_prefix ds)"
    from rmatch_min_len [OF this] assms have "length r < min_len phone_number"
      by (simp add: min_len_phone_prefix min_len_phone_number)
    then show "rmatch phone_number r = []" by (rule rmatch_too_short)
  qed
  then show ?thesis by (simp add: PHONE_REGEX_def)
qed

lemma findall_whole:
  assumes "rmatch rx s = [] # alts" and "s \<noteq> []" and "0 < min_len rx"
  shows "findall rx s = [s]"
proof -
  have "findall rx [] = []"
    using assms(3) by (rule findall_too_short [of "[]" rx, simplified])
  with assms(1,2) show ?thesis
    by (simp add: findall.simps [of rx s])
qed

lemma findall_ten_digits:
  assumes "length ds = 10" and "set ds \<subseteq> set py_digits" and "hd ds \<in> set ''6789''"
  shows "findall PHONE_REGEX ds = [ds]"
proof -
  from rmatch_phone_number [OF assms, of "[]"] have "rmatch phone_number ds = [[]]" by simp
  with assms(1) have "rmatch PHONE_REGEX ds = [] # []"
    by (simp add: rmatch_PHONE_REGEX_ten)
  moreover from assms(1) have "ds \<noteq> []" by auto
  ultimately show ?thesis
    by (rule findall_whole) (simp add: min_len_PHONE_REGEX)
qed

lemma findall_ten_digits_low:
  assumes "length ds = 10" and "hd ds \<notin> set ''6789''"
  shows "findall PHONE_REGEX ds = []"
proof -
  from assms(1) obtain d ds' where ds: "ds = d # ds'" and l: "length ds' = 9"
    by (cases ds) auto
  from ds have "ds \<noteq> []" by simp
  then have "rmatch phone_number ds = []"
    using assms(2) by (rule rmatch_phone_number_other)
  with assms(1) have "rmatch PHONE_REGEX ds = []"
    by (simp add: rmatch_PHONE_REGEX_ten)
  moreover from l have "findall PHONE_REGEX ds' = []"
    by (intro findall_too_short) (simp add: min_len_PHONE_REGEX)
  ultimately show ?thesis
    unfolding ds by (simp add: findall.simps [of PHONE_REGEX "d # ds'"])
qed

lemma rmatch_phone_prefix_plus:
  "rmatch phone_prefix (''+91'' @ rest) = rmatch (Opt (Class (py_space @ ''-''))) rest"
  by (simp add: phone_prefix_def del: set_append)

lemma rmatch_phone_prefix_zeros:
  "rmatch phone_prefix (''0091'' @ rest) = rmatch (Opt (Class (py_space @ ''-''))) rest"
  by (simp add: phone_prefix_def del: set_append)

lemma leading_digit_no_separator: "d \<in> set ''6789'' \<Longrightarrow> d \<notin> set (py_space @ ''-'')"
  by (auto simp: py_space_def)

lemma rmatch_separator:
  assumes "sep = [] \<or> (\<exists>c \<in> set (py_space @ ''-''). sep = [c])"
    and "ds \<noteq> []" and "hd ds \<in> set ''6789''"
  shows "\<exists>alts. rmatch (Opt (Class (py_space @ ''-''))) (sep @ ds) = ds # alts"
proof -
  from assms(2,3) obtain d ds' where ds: "ds = d # ds'" and d: "d \<in> set ''6789''"
    by (cases ds) auto
  from assms(1) show ?thesis
  proof
    assume "sep = []"
    moreover from d have "d \<notin> set (py_space @ ''-'')"
      by (rule leading_digit_no_separator)
    ultimately show ?thesis
      unfolding ds by (simp del: set_append set_simps)
  next
    assume "\<exists>c \<in> set (py_space @ ''-''). sep = [c]"
    then obtain c where "c \<in> set (py_space @ ''-'')" and "sep = [c]" by blast
    then show ?thesis
      by (simp del: set_append set_simps)
  qed
qed

lemma findall_prefixed:
  assumes p: "pre = ''+91'' \<or> pre = ''0091''"
    and s: "sep = [] \<or> (\<exists>c \<in> set (py_space @ ''-''). sep = [c])"
    and l: "length ds = 10" and g: "set ds \<subseteq> set py_digits" and h: "hd ds \<in> set ''6789''"
  shows "findall PHONE_REGEX (pre @ sep @ ds) = [pre @ sep @ ds]"
proof -
  from l have n: "ds \<noteq> []" by auto
  from rmatch_separator [OF s n h] obtain alts where
    "rmatch (Opt (Class (py_space @ ''-''))) (sep @ ds) = ds # alts" by blast
  with p have pp: "rmatch phone_prefix (pre @ sep @ ds) = ds # alts"
    using rmatch_phone_prefix_plus [of "sep @ ds"] rmatch_phone_prefix_zeros [of "sep @ ds"]
    by auto
  from rmatch_phone_number [OF l g h, of "[]"] have pn: "rmatch phone_number ds = [[]]"
    by simp
  have "rmatch PHONE_REGEX (pre @ sep @ ds) =
      [] # (concat (map (rmatch phone_number) alts) @ rmatch phone_number (pre @ sep @ ds))"
    by (simp add: PHONE_REGEX_def pp pn)
  moreover from n have "pre @ sep @ ds \<noteq> []" by simp
  ultimately show ?thesis
    by (rule findall_whole) (simp add: min_len_PHONE_REGEX)
qed

text \<open>
  C3: let \<open>ds\<close> be a string of 10 decimal digits. If its first digit is 6 to 9, the phone
  pattern matches the whole of \<open>ds\<close>, and also the whole of \<open>ds\<close> preceded by \<open>+91\<close> or
  \<open>0091\<close> with or without one separator (a whitespace character or a hyphen) in between: in
  each case \<open>findall\<close> returns that string and nothing else. If its first digit is 0 to 5,
  \<open>findall\<close> returns nothing for \<open>ds\<close>.
\<close>

theorem phone_pattern_matches:
  "length ds = 10 \<and> set ds \<subseteq> set py_digits \<longrightarrow>
     (hd ds \<in> set ''6789'' \<longrightarrow>
        findall PHONE_REGEX ds = [ds]
        \<and> ((pre = ''+91'' \<or> pre = ''0091'')
             \<and> (sep = [] \<or> (\<exists>c \<in> set (py_space @ ''-''). sep = [c])) \<longrightarrow>
           findall PHONE_REGEX (pre @ sep @ ds) = [pre @ sep @ ds]))
     \<and> (hd ds \<in> set ''012345'' \<longrightarrow> findall PHONE_REGEX ds = [])"
proof (intro impI conjI)
  assume a: "length ds = 10 \<and> set ds \<subseteq> set py_digits"
  {
    assume h: "hd ds \<in> set ''6789''"
    from a h show "findall PHONE_REGEX ds = [ds]"
      by (simp add: findall_ten_digits del: set_simps)
    assume "(pre = ''+91'' \<or> pre = ''0091'')
             \<and> (sep = [] \<or> (\<exists>c \<in> set (py_space @ ''-''). sep = [c]))"
    with a h show "findall PHONE_REGEX (pre @ sep @ ds) = [pre @ sep @ ds]"
      by (intro findall_prefixed) simp_all
  }
  assume "hd ds \<in> set ''012345''"
  then have "hd ds \<notin> set ''6789''" by auto
  with a show "findall PHONE_REGEX ds = []"
    by (intro findall_ten_digits_low) simp_all
qed

theorem phone_pattern_matches_witness:
  "length ''9876543210'' = 10 \<and> set ''9876543210'' \<subseteq> set py_digits
   \<and> hd ''9876543210'' \<in> set ''6789''
   \<and> findall PHONE_REGEX ''9876543210'' = [''9876543210'']
   \<and> findall PHONE_REGEX ''+91-9876543210'' = [''+91-9876543210'']
   \<and> length ''5876543210'' = 10 \<and> set ''5876543210'' \<subseteq> set py_digits
   \<and> hd ''5876543210'' \<in> set ''012345''
   \<and> findall PHONE_REGEX ''5876543210'' = []"
  using phone_pattern_matches [of "''9876543210''" "''+91''" "''-''"]
    phone_pattern_matches [of "''5876543210''" "''+91''" "''-''"]
  by (simp add: py_digits_def py_space_def)

section \<open>Properties of the Link Discoverer\<close>

lemma qualifying_Nil: "qualifying resolve domain [] = {}"
  by (simp add: qualifying_def)

lemma qualifying_Cons:
  "qualifying resolve domain (h # rest) =
     (case resolve h of
        None \<Rightarrow> qualifying resolve domain rest
      | Some l \<Rightarrow> if sublist domain l then insert l (qualifying resolve domain rest)
                  else qualifying resolve domain rest)"
  by (auto simp: qualifying_def split: option.splits)

lemma finite_qualifying: "finite (qualifying resolve domain hrefs)"
  by (induction hrefs) (simp_all add: qualifying_Nil qualifying_Cons split: option.splits)

lemma get_links_loop_sound:
  "get_links_loop resolve domain max_pages hrefs links \<subseteq> links \<union> qualifying resolve domain hrefs"
proof (induction hrefs arbitrary: links)
  case Nil
  then show ?case by simp
next
  case (Cons h rest)
  show ?case
  proof (cases "resolve h")
    case None
    then show ?thesis by simp
  next
    case (Some l)
    show ?thesis
    proof (cases "sublist domain l")
      case False
      with Some Cons.IH [of links] show ?thesis
        by (simp add: qualifying_Cons)
    next
      case True
      with Some Cons.IH [of "insert l links"] show ?thesis
        by (auto simp: qualifying_Cons Let_def)
    qed
  qed
qed

lemma get_links_loop_complete:
  assumes "finite links" and "\<forall>h \<in> set hrefs. resolve h \<noteq> None"
    and "int (card (links \<union> qualifying resolve domain hrefs)) \<le> max_pages"
  shows "get_links_loop resolve domain max_pages hrefs links =
     links \<union> qualifying resolve domain hrefs"
  using assms
proof (induction hrefs arbitrary: links)
  case Nil
  then show ?case by (simp add: qualifying_Nil)
next
  case (Cons h rest)
  from Cons.prems(2) obtain l where l: "resolve h = Some l" by auto
  from Cons.prems(2) have r: "\<forall>h \<in> set rest. resolve h \<noteq> None" by simp
  show ?case
  proof (cases "sublist domain l")
    case False
    with l have q: "qualifying resolve domain (h # rest) = qualifying resolve domain rest"
      by (simp add: qualifying_Cons)
    with Cons.prems have "get_links_loop resolve domain max_pages rest links =
        links \<union> qualifying resolve domain rest"
      by (intro Cons.IH r) simp_all
    with l False q show ?thesis by simp
  next
    case True
    with l have q: "links \<union> qualifying resolve domain (h # rest) =
        insert l links \<union> qualifying resolve domain rest"
      by (simp add: qualifying_Cons)
    show ?thesis
    proof (cases "int (card (insert l links)) \<ge> max_pages")
      case False
      from Cons.prems(1) have "finite (insert l links)" by simp
      moreover from Cons.prems(3) q
      have "int (card (insert l links \<union> qualifying resolve domain rest)) \<le> max_pages"
        by simp
      ultimately have "get_links_loop resolve domain max_pages rest (insert l links) =
          insert l links \<union> qualifying resolve domain rest"
        using r by (intro Cons.IH) simp_all
      with l True False q show ?thesis by (simp add: Let_def)
    next
      case full: True
      let ?T = "insert l links \<union> qualifying resolve domain rest"
      from Cons.prems(1) have f: "finite ?T"
        by (simp add: finite_qualifying)
      from Cons.prems(3) q full have "card ?T \<le> card (insert l links)"
        by simp
      with f have "insert l links = ?T"
        by (intro card_seteq) auto
      with l True full q show ?thesis by (simp add: Let_def)
    qed
  qed
qed

lemma get_links_set:
  assumes "page_hrefs env w base_url = (Some hrefs, w')" and "netloc env base_url = Some domain"
    and "lists_set (list_of env) (get_links_loop (urljoin env base_url) domain max_pages hrefs {})"
  shows "set (fst (get_links env w base_url max_pages)) =
     get_links_loop (urljoin env base_url) domain max_pages hrefs {}"
  using assms by (simp add: get_links_def lists_set_def)

text \<open>
  C1, as amended: when the page is fetched and \<open>list\<close> lists the set of links collected,
  every link that the Link Discoverer returns is the resolution of a hyperlink of the page
  and contains the host of the base URL as a block of characters somewhere in the whole
  resolved URL (not only in its host component). When every hyperlink resolves and no more
  than \<open>max_pages\<close> different resolved links contain it, the links returned are exactly
  those: a resolved link is retained if and only if the text of the whole resolved URL
  contains the host of the base URL.
\<close>

theorem links_retained_by_url_text:
  "page_hrefs env w base_url = (Some hrefs, w') \<and> netloc env base_url = Some domain
   \<and> lists_set (list_of env) (get_links_loop (urljoin env base_url) domain max_pages hrefs {})
   \<longrightarrow>
     (\<forall>l \<in> set (fst (get_links env w base_url max_pages)).
        sublist domain l \<and> (\<exists>h \<in> set hrefs. urljoin env base_url h = Some l))
     \<and> ((\<forall>h \<in> set hrefs. urljoin env base_url h \<noteq> None)
         \<and> int (card {l. \<exists>h \<in> set hrefs. urljoin env base_url h = Some l \<and> sublist domain l})
             \<le> max_pages \<longrightarrow>
         set (fst (get_links env w base_url max_pages)) =
           {l. \<exists>h \<in> set hrefs. urljoin env base_url h = Some l \<and> sublist domain l})"
proof (intro impI conjI ballI)
  assume a: "page_hrefs env w base_url = (Some hrefs, w') \<and> netloc env base_url = Some domain
   \<and> lists_set (list_of env) (get_links_loop (urljoin env base_url) domain max_pages hrefs {})"
  then have s: "set (fst (get_links env w base_url max_pages)) =
     get_links_loop (urljoin env base_url) domain max_pages hrefs {}"
    by (intro get_links_set) simp_all
  {
    fix l assume "l \<in> set (fst (get_links env w base_url max_pages))"
    with s get_links_loop_sound [of "urljoin env base_url" domain max_pages hrefs "{}"]
    have "l \<in> qualifying (urljoin env base_url) domain hrefs" by auto
    then show "sublist domain l" and "\<exists>h \<in> set hrefs. urljoin env base_url h = Some l"
      by (auto simp: qualifying_def)
  }
  assume "(\<forall>h \<in> set hrefs. urljoin env base_url h \<noteq> None)
         \<and> int (card {l. \<exists>h \<in> set hrefs. urljoin env base_url h = Some l \<and> sublist domain l})
             \<le> max_pages"
  then have "get_links_loop (urljoin env base_url) domain max_pages hrefs {} =
      {} \<union> qualifying (urljoin env base_url) domain hrefs"
    by (intro get_links_loop_complete) (simp_all add: qualifying_def)
  with s show "set (fst (get_links env w base_url max_pages)) =
           {l. \<exists>h \<in> set hrefs. urljoin env base_url h = Some l \<and> sublist domain l}"
    by (simp add: qualifying_def)
qed

lemma page_hrefs_ex: "page_hrefs env_ex 0 ''https://example.in'' = (Some hrefs_ex, 1)"
  by (simp add: env_ex_def hrefs_ex_def)

lemma netloc_env_ex: "netloc env_ex u = Some (url_netloc u)"
  by (simp add: env_ex_def)

lemma urljoin_env_ex: "urljoin env_ex b = Some"
  by (simp add: env_ex_def fun_eq_iff)

lemma sublist_ex:
  "sublist ''example.in'' ''https://example.in/team''"
  "sublist ''example.in'' ''https://evil.com/?q=example.in''"
  "\<not> sublist ''example.in'' ''https://other.org/''"
  "sublist ''example.in'' ''https://shop.example.in/''"
  "\<not> sublist ''example.in'' ''evil.com''"
  by (simp_all add: sublist_Cons_right)

lemma get_links_loop_ex:
  "get_links_loop Some ''example.in'' 10 hrefs_ex {} =
     {''https://example.in/team'', ''https://evil.com/?q=example.in'', ''https://shop.example.in/''}"
proof -
  have "get_links_loop Some ''example.in'' 10 hrefs_ex {} =
     {''https://example.in/team'', ''https://shop.example.in/'',
      ''https://evil.com/?q=example.in'', ''https://example.in/team''}"
    by (simp add: hrefs_ex_def sublist_ex Let_def)
  also have "\<dots> = {''https://example.in/team'', ''https://evil.com/?q=example.in'',
      ''https://shop.example.in/''}"
    by (simp add: insert_commute)
  finally show ?thesis .
qed

lemma qualifying_ex:
  "qualifying Some ''example.in'' hrefs_ex =
     {''https://example.in/team'', ''https://evil.com/?q=example.in'', ''https://shop.example.in/''}"
  by (auto simp add: hrefs_ex_def qualifying_Cons qualifying_Nil sublist_ex)

lemma get_links_ex:
  "fst (get_links env_ex 0 ''https://example.in'' 10) =
     [''https://example.in/team'', ''https://evil.com/?q=example.in'', ''https://shop.example.in/'']"
  by (simp add: get_links_def page_hrefs_ex netloc_env_ex netloc_ex urljoin_env_ex
      get_links_loop_ex) (simp add: env_ex_def list_in_def order_ex_def)

theorem links_retained_by_url_text_witness:
  "page_hrefs env_ex 0 ''https://example.in'' = (Some hrefs_ex, 1)
   \<and> netloc env_ex ''https://example.in'' = Some ''example.in''
   \<and> lists_set (list_of env_ex)
       (get_links_loop (urljoin env_ex ''https://example.in'') ''example.in'' 10 hrefs_ex {})
   \<and> int (card {l. \<exists>h \<in> set hrefs_ex. urljoin env_ex ''https://example.in'' h = Some l
                    \<and> sublist ''example.in'' l}) \<le> 10
   \<and> set (fst (get_links env_ex 0 ''https://example.in'' 10)) =
       {''https://example.in/team'', ''https://evil.com/?q=example.in'',
        ''https://shop.example.in/''}"
proof -
  have n: "netloc env_ex ''https://example.in'' = Some ''example.in''"
    by (simp add: netloc_env_ex netloc_ex)
  have "list_of env_ex = list_in order_ex"
    by (simp add: env_ex_def)
  then have l: "lists_set (list_of env_ex)
       (get_links_loop (urljoin env_ex ''https://example.in'') ''example.in'' 10 hrefs_ex {})"
    by (simp add: urljoin_env_ex get_links_loop_ex)
      (rule lists_set_list_in, simp add: order_ex_def)
  have q: "{l. \<exists>h \<in> set hrefs_ex. urljoin env_ex ''https://example.in'' h = Some l
                    \<and> sublist ''example.in'' l} =
      {''https://example.in/team'', ''https://evil.com/?q=example.in'', ''https://shop.example.in/''}"
    using qualifying_ex by (simp add: qualifying_def urljoin_env_ex)
  have c: "int (card {l. \<exists>h \<in> set hrefs_ex. urljoin env_ex ''https://example.in'' h = Some l
                    \<and> sublist ''example.in'' l}) \<le> 10"
    unfolding q by simp
  have u: "\<forall>h \<in> set hrefs_ex. urljoin env_ex ''https://example.in'' h \<noteq> None"
    by (simp add: urljoin_env_ex)
  note t = links_retained_by_url_text [of env_ex 0 "''https://example.in''" hrefs_ex 1
      "''example.in''" 10]
  have r: "set (fst (get_links env_ex 0 ''https://example.in'' 10)) =
       {''https://example.in/team'', ''https://evil.com/?q=example.in'',
        ''https://shop.example.in/''}"
    using t [THEN mp, OF conjI [OF page_hrefs_ex conjI [OF n l]], THEN conjunct2, THEN mp,
        OF conjI [OF u c]]
    unfolding q .
  show ?thesis
    by (rule conjI [OF page_hrefs_ex conjI [OF n conjI [OF l conjI [OF c r]]]])
qed

text \<open>
  The claim as written fails: the page \<open>https://example.in\<close> links to
  \<open>https://evil.com/?q=example.in\<close>; the link is retained, and its host component
  \<open>evil.com\<close> does not contain the host \<open>example.in\<close> of the base URL.
\<close>

theorem links_host_counterexample:
  "fst (page_hrefs env_ex 0 ''https://example.in'') = Some hrefs_ex
   \<and> ''https://evil.com/?q=example.in'' \<in> set hrefs_ex
   \<and> urljoin env_ex ''https://example.in'' ''https://evil.com/?q=example.in'' =
       Some ''https://evil.com/?q=example.in''
   \<and> ''https://evil.com/?q=example.in'' \<in> set (fst (get_links env_ex 0 ''https://example.in'' 10))
   \<and> netloc env_ex ''https://example.in'' = Some ''example.in''
   \<and> netloc env_ex ''https://evil.com/?q=example.in'' = Some ''evil.com''
   \<and> \<not> sublist ''example.in'' ''evil.com''"
  by (simp add: page_hrefs_ex get_links_ex netloc_env_ex netloc_ex urljoin_env_ex sublist_ex)
    (simp add: hrefs_ex_def)

end
